theory Spec2Isabelle
  imports Complex_Main "HOL-Library.Multiset" "HOL-Library.Sublist"
begin

section \<open>Numbers\<close>

text \<open>
  The post-processing code of \<^verbatim>\<open>deepplantpheno.py\<close> works on numpy \<^verbatim>\<open>float64\<close>
  arrays. A finite float is modelled by a real number (rounding is not modelled); the
  special values that numpy produces when a division has a zero divisor are explicit:
  numpy does not raise there, it returns \<^verbatim>\<open>nan\<close> for \<^verbatim>\<open>0/0\<close> and a signed infinity
  otherwise.
\<close>

datatype npfloat = Fin real | PInf | NInf | NaN

definition np_div :: "real \<Rightarrow> real \<Rightarrow> npfloat" where
  "np_div n d =
     (if d = 0 then (if n = 0 then NaN else if 0 < n then PInf else NInf)
      else Fin (n / d))"

text \<open>Comparisons of a float with a finite threshold; every comparison with \<^verbatim>\<open>nan\<close> is false.\<close>

fun np_lt :: "npfloat \<Rightarrow> real \<Rightarrow> bool" where
  "np_lt (Fin x) t = (x < t)"
| "np_lt PInf t = False"
| "np_lt NInf t = True"
| "np_lt NaN t = False"

fun np_gt :: "npfloat \<Rightarrow> real \<Rightarrow> bool" where
  "np_gt (Fin x) t = (t < x)"
| "np_gt PInf t = True"
| "np_gt NInf t = False"
| "np_gt NaN t = False"

fun np_ge :: "npfloat \<Rightarrow> real \<Rightarrow> bool" where
  "np_ge (Fin x) t = (t \<le> x)"
| "np_ge PInf t = True"
| "np_ge NInf t = False"
| "np_ge NaN t = False"

section \<open>Intersection over union\<close>

text \<open>
  \<^verbatim>\<open>__compute_iou(box1, box2)\<close> reads the first four entries of each argument, the
  corners \<^verbatim>\<open>x1, y1, x2, y2\<close>.
\<close>

type_synonym box = "real \<times> real \<times> real \<times> real"

fun intersection_area :: "box \<Rightarrow> box \<Rightarrow> real" where
  "intersection_area (a1, b1, a2, b2) (c1, d1, c2, d2) =
     (let x1 = max a1 c1; y1 = max b1 d1; x2 = min a2 c2; y2 = min b2 d2
      in max 0 (x2 - x1) * max 0 (y2 - y1))"

fun union_area :: "box \<Rightarrow> box \<Rightarrow> real" where
  "union_area (a1, b1, a2, b2) (c1, d1, c2, d2) =
     ((a2 - a1) * (b2 - b1)) + ((c2 - c1) * (d2 - d1))
       - intersection_area (a1, b1, a2, b2) (c1, d1, c2, d2)"

definition compute_iou :: "box \<Rightarrow> box \<Rightarrow> npfloat" where
  "compute_iou box1 box2 = np_div (intersection_area box1 box2) (union_area box1 box2)"

section \<open>Arrays, errors and the model's settings\<close>

text \<open>
  A two-dimensional array is the list of its rows, a row the list of its entries. What
  numpy raises is a value of \<open>error\<close>; a call either returns, raises, or does not return.
\<close>

datatype error = ValueError | IndexError | ZeroDivisionError | NameError

datatype 'a outcome = Returns 'a | Raises error | Diverges

text \<open>
  The fields of \<^verbatim>\<open>self\<close> that the YOLO post-processing reads. \<^verbatim>\<open>_THRESH_SIG\<close>,
  \<^verbatim>\<open>_THRESH_OVERLAP\<close> and \<^verbatim>\<open>_THRESH_CORRECT\<close> default to 0.6, 0.3 and 0.5, and
  \<^verbatim>\<open>set_yolo_thresholds\<close> stores whatever it is given.
\<close>

record model =
  grid_w :: nat
  grid_h :: nat
  image_width :: nat
  image_height :: nat
  ANCHORS :: "(real \<times> real) list"
  NUM_BOXES :: nat
  THRESH_SIG :: real
  THRESH_OVERLAP :: real
  THRESH_CORRECT :: real
  patch_height :: nat
  patch_width :: nat

text \<open>
  \<^verbatim>\<open>np.argmax\<close> returns the first index of the maximum, and the first index of a
  \<^verbatim>\<open>nan\<close> when there is one; the first argument of \<open>argmax_by\<close> says when an entry
  is at least as large as a later one. On an empty array numpy raises: the callers below
  test for it before they call.
\<close>

fun argmax_by :: "('a \<Rightarrow> 'a \<Rightarrow> bool) \<Rightarrow> 'a list \<Rightarrow> nat" where
  "argmax_by ge [] = 0"
| "argmax_by ge [x] = 0"
| "argmax_by ge (x # y # ys) =
     (let j = argmax_by ge (y # ys) in if ge x ((y # ys) ! j) then 0 else Suc j)"

definition argmax :: "real list \<Rightarrow> nat" where
  "argmax = argmax_by (\<lambda>x y. y \<le> x)"

fun np_beats :: "npfloat \<Rightarrow> npfloat \<Rightarrow> bool" where
  "np_beats NaN y = True"
| "np_beats x NaN = False"
| "np_beats PInf y = True"
| "np_beats x PInf = False"
| "np_beats x NInf = True"
| "np_beats NInf y = False"
| "np_beats (Fin a) (Fin b) = (b \<le> a)"

definition np_argmax :: "npfloat list \<Rightarrow> nat" where
  "np_argmax = argmax_by np_beats"

text \<open>
  \<^verbatim>\<open>np.argsort\<close>: the indices in ascending order of their keys. numpy leaves the order
  of equal keys to its sorting routine; here equal keys keep their index order.
\<close>

definition argsort :: "real list \<Rightarrow> nat list" where
  "argsort xs = sort_key (\<lambda>i. xs ! i) [0..<length xs]"

section \<open>Filtering the predictions of one image\<close>

text \<open>
  \<^verbatim>\<open>__yolo_filter_predictions(preds)\<close>. A row of \<^verbatim>\<open>preds\<close> holds, for each of the
  \<^verbatim>\<open>_NUM_BOXES\<close> boxes of a grid square, \<^verbatim>\<open>[x1, y1, x2, y2, conf]\<close>, and then the class
  predictions. \<open>conf\<close> reads the confidence of a five-entry box, \<open>box_of\<close> its corners.
\<close>

definition conf :: "real list \<Rightarrow> real" where
  "conf r = r ! 4"

definition box_of :: "real list \<Rightarrow> box" where
  "box_of r = (r ! 0, r ! 1, r ! 2, r ! 3)"

text \<open>The reshape of a row to \<^verbatim>\<open>(NUM_BOXES, 5)\<close>, and the rest of the row.\<close>

definition reshape_boxes :: "nat \<Rightarrow> real list \<Rightarrow> real list list" where
  "reshape_boxes nb r = map (\<lambda>b. take 5 (drop (5 * b) r)) [0..<nb]"

text \<open>In each grid square, the box of highest confidence is the responsible one.\<close>

definition responsible_box :: "nat \<Rightarrow> real list \<Rightarrow> real list" where
  "responsible_box nb r =
     (let boxes = reshape_boxes nb r;
          max_conf_idx = argmax (map conf boxes)
      in boxes ! max_conf_idx)"

text \<open>
  The table \<^verbatim>\<open>pair_iou\<close> of the IoU of every two rows, read at \<^verbatim>\<open>[i, j]\<close>.
\<close>

definition pair_iou :: "real list list \<Rightarrow> nat \<Rightarrow> nat \<Rightarrow> npfloat" where
  "pair_iou preds i j = compute_iou (box_of (preds ! i)) (box_of (preds ! j))"

text \<open>
  The entries of \<^verbatim>\<open>conf_order\<close> that the mask
  \<^verbatim>\<open>pair_iou[cur_grid, conf_order] < self._THRESH_OVERLAP\<close> keeps.
\<close>

definition non_overlap :: "real \<Rightarrow> (nat \<Rightarrow> nat \<Rightarrow> npfloat) \<Rightarrow> nat \<Rightarrow> nat list \<Rightarrow> nat list" where
  "non_overlap thresh iou cur_grid conf_order =
     filter (\<lambda>j. np_lt (iou cur_grid j) thresh) conf_order"

text \<open>
  The suppression loop. It ends when \<^verbatim>\<open>conf_order\<close> is empty or when the mask keeps
  nothing; nothing else bounds it, so its result is an option and \<open>None\<close> stands for a
  loop that runs forever.
\<close>

partial_function (option) nms_loop ::
  "real \<Rightarrow> (nat \<Rightarrow> nat \<Rightarrow> npfloat) \<Rightarrow> nat list \<Rightarrow> nat list \<Rightarrow> nat list option" where
  "nms_loop thresh iou conf_order maximal_idx =
     (if conf_order = [] then Some maximal_idx
      else
        let cur_grid = last conf_order;
            maximal_idx' = maximal_idx @ [cur_grid];
            kept = non_overlap thresh iou cur_grid conf_order
        in if kept = [] then Some maximal_idx'
           else nms_loop thresh iou kept maximal_idx')"

declare nms_loop.simps [code]

text \<open>
  The boxes that the loop selects, as a total function for the proofs: it follows the
  loop while the selected box leaves the list, and stops with what is left of the list
  empty or with a selected box that would stay (where the loop runs forever).
\<close>

function nms_select :: "real \<Rightarrow> (nat \<Rightarrow> nat \<Rightarrow> npfloat) \<Rightarrow> nat list \<Rightarrow> nat list" where
  "nms_select t iou co =
     (if co = [] \<or> np_lt (iou (last co) (last co)) t then []
      else last co # nms_select t iou (non_overlap t iou (last co) co))"
  by pat_completeness auto
termination
proof (relation "measure (\<lambda>(t, iou, co). length co)")
  show "wf (measure (\<lambda>(t, iou, co). length co))"
    by simp
next
  fix t :: real and iou :: "nat \<Rightarrow> nat \<Rightarrow> npfloat" and co :: "nat list"
  assume "\<not> (co = [] \<or> np_lt (iou (last co) (last co)) t)"
  then have "last co \<in> set co" and "\<not> np_lt (iou (last co) (last co)) t"
    by simp_all
  then have "length (filter (\<lambda>j. np_lt (iou (last co) j) t) co) < length co"
    by (rule length_filter_less)
  then show "((t, iou, non_overlap t iou (last co) co), (t, iou, co))
      \<in> measure (\<lambda>(t, iou, co). length co)"
    by (simp add: non_overlap_def)
qed

declare nms_select.simps [simp del]

text \<open>
  The first half of the function: the responsible box of every grid square beside the
  square's class predictions, and of these the rows that the mask
  \<^verbatim>\<open>preds[:, 4] > self._THRESH_SIG\<close> keeps.
\<close>

definition significant :: "model \<Rightarrow> real list list \<Rightarrow> (real list \<times> real list) list" where
  "significant self preds =
     (let class_preds = map (drop (NUM_BOXES self * 5)) preds;
          responsible_boxes = map (responsible_box (NUM_BOXES self)) preds
      in filter (\<lambda>(p, c). THRESH_SIG self < conf p) (zip responsible_boxes class_preds))"

text \<open>
  The second half: non-maximal suppression over the significant rows, then the rows
  \<^verbatim>\<open>maximal_idx\<close> of the boxes and of the class predictions, side by side.
\<close>

definition yolo_nms :: "model \<Rightarrow> (real list \<times> real list) list \<Rightarrow> real list list option outcome" where
  "yolo_nms self sig =
     (let class_preds = map snd sig;
          preds = map fst sig;
          conf_order = argsort (map conf preds)
      in case nms_loop (THRESH_OVERLAP self) (pair_iou preds) conf_order [] of
           None \<Rightarrow> Diverges
         | Some maximal_idx \<Rightarrow>
             Returns (Some (map (\<lambda>k. preds ! k @ class_preds ! k) maximal_idx)))"

text \<open>
  The whole function. The reshape needs \<^verbatim>\<open>NUM_BOXES * 5\<close> entries in every row,
  \<^verbatim>\<open>np.argmax\<close> at least one box and \<^verbatim>\<open>np.stack\<close> at least one row: numpy raises
  \<^verbatim>\<open>ValueError\<close> otherwise. With no significant row the function returns \<^verbatim>\<open>None\<close>.
\<close>

definition yolo_filter_predictions :: "model \<Rightarrow> real list list \<Rightarrow> real list list option outcome" where
  "yolo_filter_predictions self preds =
     (if preds = [] then Raises ValueError
      else if NUM_BOXES self = 0 then Raises ValueError
      else if list_ex (\<lambda>r. length r < NUM_BOXES self * 5) preds then Raises ValueError
      else if significant self preds = [] then Returns None
      else yolo_nms self (significant self preds))"

section \<open>Mean average precision\<close>

text \<open>
  Arithmetic on floats that may be special values, as numpy does it: \<^verbatim>\<open>nan\<close> absorbs,
  \<^verbatim>\<open>inf - inf\<close> and \<^verbatim>\<open>0 * inf\<close> are \<^verbatim>\<open>nan\<close>.
\<close>

fun np_sub :: "npfloat \<Rightarrow> npfloat \<Rightarrow> npfloat" where
  "np_sub (Fin a) (Fin b) = Fin (a - b)"
| "np_sub NaN y = NaN"
| "np_sub x NaN = NaN"
| "np_sub PInf PInf = NaN"
| "np_sub NInf NInf = NaN"
| "np_sub PInf y = PInf"
| "np_sub NInf y = NInf"
| "np_sub (Fin a) PInf = NInf"
| "np_sub (Fin a) NInf = PInf"

fun np_add :: "npfloat \<Rightarrow> npfloat \<Rightarrow> npfloat" where
  "np_add (Fin a) (Fin b) = Fin (a + b)"
| "np_add NaN y = NaN"
| "np_add x NaN = NaN"
| "np_add PInf NInf = NaN"
| "np_add NInf PInf = NaN"
| "np_add PInf y = PInf"
| "np_add NInf y = NInf"
| "np_add (Fin a) PInf = PInf"
| "np_add (Fin a) NInf = NInf"

fun np_scale :: "real \<Rightarrow> npfloat \<Rightarrow> npfloat" where
  "np_scale p (Fin r) = Fin (p * r)"
| "np_scale p NaN = NaN"
| "np_scale p PInf = (if p = 0 then NaN else if 0 < p then PInf else NInf)"
| "np_scale p NInf = (if p = 0 then NaN else if 0 < p then NInf else PInf)"

definition np_sum :: "npfloat list \<Rightarrow> npfloat" where
  "np_sum xs = foldl np_add (Fin 0) xs"

text \<open>
  \<^verbatim>\<open>__yolo_map(labels, preds)\<close>. A label row is \<^verbatim>\<open>[object-ness, class, x1, y1, x2, y2]\<close>,
  a prediction row \<^verbatim>\<open>[x1, y1, x2, y2, conf]\<close> and the class predictions; an image with
  no label or no prediction has \<^verbatim>\<open>None\<close> in the list. The function appends a column
  of zeros to the labels of an image and reads and writes column 6 as the mark of a
  label that a prediction has been matched with.
\<close>

definition label_box :: "real list \<Rightarrow> box" where
  "label_box l = (l ! 2, l ! 3, l ! 4, l ! 5)"

definition matched :: "real list \<Rightarrow> bool" where
  "matched l = (l ! 6 \<noteq> 0)"

definition mark_matched :: "nat \<Rightarrow> real list list \<Rightarrow> real list list" where
  "mark_matched j im_lab = im_lab[j := (im_lab ! j)[6 := 1]]"

text \<open>
  The loop over the predictions of one image; each prediction comes with its row of
  \<^verbatim>\<open>pair_ious\<close>. A detection is the pair of a confidence and 1 (true positive) or 0.
\<close>

fun match_loop :: "real \<Rightarrow> (real list \<times> npfloat list) list \<Rightarrow> real list list \<Rightarrow> (real \<times> nat) list" where
  "match_loop thresh [] im_lab = []"
| "match_loop thresh ((p, ious) # rest) im_lab =
     (let j = np_argmax ious in
      if np_ge (ious ! j) thresh \<and> \<not> matched (im_lab ! j)
      then (conf p, 1) # match_loop thresh rest (mark_matched j im_lab)
      else (conf p, 0) # match_loop thresh rest im_lab)"

definition pair_ious :: "real list list \<Rightarrow> real list list \<Rightarrow> npfloat list list" where
  "pair_ious im_pred im_lab =
     map (\<lambda>p. map (\<lambda>l. compute_iou (box_of p) (label_box l)) im_lab) im_pred"

text \<open>
  The body of the loop over the images, for an image that has predictions. With
  predictions and an empty array of labels, \<^verbatim>\<open>np.argmax\<close> over an empty row of IoUs
  raises \<^verbatim>\<open>ValueError\<close>; rows too short for the entries that are read raise
  \<^verbatim>\<open>IndexError\<close>.
\<close>

definition match_image ::
  "model \<Rightarrow> real list list option \<Rightarrow> real list list \<Rightarrow> error + (real \<times> nat) list" where
  "match_image self lab im_pred =
     (case lab of
        None \<Rightarrow>
          if list_ex (\<lambda>p. length p < 5) im_pred then Inl IndexError
          else Inr (map (\<lambda>p. (conf p, 0)) im_pred)
      | Some im_lab \<Rightarrow>
          if im_pred = [] then Inr []
          else if im_lab = [] then Inl ValueError
          else if list_ex (\<lambda>p. length p < 5) im_pred then Inl IndexError
          else if list_ex (\<lambda>l. length l < 6) im_lab then Inl IndexError
          else Inr (match_loop (THRESH_CORRECT self)
                 (zip im_pred (pair_ious im_pred im_lab)) (map (\<lambda>l. l @ [0]) im_lab)))"

fun all_detections ::
  "model \<Rightarrow> (real list list option \<times> real list list option) list \<Rightarrow> error + (real \<times> nat) list" where
  "all_detections self [] = Inr []"
| "all_detections self ((im_lab, None) # rest) = all_detections self rest"
| "all_detections self ((im_lab, Some im_pred) # rest) =
     (case match_image self im_lab im_pred of
        Inl e \<Rightarrow> Inl e
      | Inr ds \<Rightarrow>
          (case all_detections self rest of
             Inl e \<Rightarrow> Inl e
           | Inr ds' \<Rightarrow> Inr (ds @ ds')))"

definition n_truths :: "real list list option list \<Rightarrow> nat" where
  "n_truths labels = sum_list (map (\<lambda>x. case x of None \<Rightarrow> 0 | Some im_lab \<Rightarrow> length im_lab) labels)"

text \<open>\<^verbatim>\<open>np.cumsum\<close>, and the loop that makes every precision the maximum of the later ones.\<close>

fun cumsum_from :: "nat \<Rightarrow> nat list \<Rightarrow> nat list" where
  "cumsum_from s [] = []"
| "cumsum_from s (x # xs) = (s + x) # cumsum_from (s + x) xs"

fun max_from_right :: "real list \<Rightarrow> real list" where
  "max_from_right [] = []"
| "max_from_right [x] = [x]"
| "max_from_right (x # y # ys) = (let r = max_from_right (y # ys) in max (hd r) x # r)"

definition average_precision :: "(real \<times> nat) list \<Rightarrow> nat \<Rightarrow> npfloat" where
  "average_precision detections truths =
     (let true_positives = cumsum_from 0 (map snd detections);
          n_positives = length detections;
          precision = map (\<lambda>(tp, n). real tp / real n) (zip true_positives [1..<n_positives + 1]);
          recall = map (\<lambda>tp. np_div (real tp) (real truths)) true_positives;
          precision' = max_from_right precision
      in np_sum (map (\<lambda>(p, r1, r0). np_scale p (np_sub r1 r0))
           (zip (tl precision') (zip (tl recall) (butlast recall)))))"

definition yolo_map ::
  "model \<Rightarrow> real list list option list \<Rightarrow> real list list option list \<Rightarrow> npfloat outcome" where
  "yolo_map self labels preds =
     (case all_detections self (zip labels preds) of
        Inl e \<Rightarrow> Raises e
      | Inr detections \<Rightarrow>
          if detections = [] then Returns (Fin 0)
          else Returns (average_precision (sort_key (\<lambda>d. - fst d) detections) (n_truths labels)))"

section \<open>Converting coordinates\<close>

text \<open>
  \<^verbatim>\<open>__yolo_coord_convert(labels, preds)\<close>. \<^verbatim>\<open>expit\<close> is the logistic sigmoid of scipy.
  The helper \<^verbatim>\<open>xywh_to_xyxy\<close> works on whole arrays; \<open>xywh_to_xyxy self cell\<close> is what it
  does at position \<open>cell\<close> of \<^verbatim>\<open>np.arange(grid_w * grid_h)\<close>.
\<close>

definition expit :: "real \<Rightarrow> real" where
  "expit x = 1 / (1 + exp (- x))"

definition xywh_to_xyxy :: "model \<Rightarrow> nat \<Rightarrow> real \<Rightarrow> real \<Rightarrow> real \<Rightarrow> real \<Rightarrow> real list" where
  "xywh_to_xyxy self cell x y w h =
     (let x_centre = cell mod grid_w self;
          y_centre = cell div grid_w self;
          scale_x = real (image_width self) / real (grid_w self);
          scale_y = real (image_height self) / real (grid_h self);
          x' = (x + real x_centre) * scale_x;
          y' = (y + real y_centre) * scale_y;
          w' = w * scale_x;
          h' = h * scale_y;
          x1 = x' - w' / 2;
          x2 = x' + w' / 2;
          y1 = y' - h' / 2;
          y2 = y' + h' / 2
      in [x1, y1, x2, y2])"

text \<open>
  Broadcasting: row \<open>i\<close> of an array meets entry \<open>i\<close> of the grid positions, or the only
  entry when the grid has one square; box \<open>b\<close> meets anchor \<open>b\<close>, or the only anchor when
  there is one. Other shapes do not fit and numpy raises. A label row ends with the four
  coordinates \<^verbatim>\<open>x, y, w, h\<close>; a row of fewer than four entries is taken to raise as well.
\<close>

definition centre_for :: "model \<Rightarrow> nat \<Rightarrow> nat" where
  "centre_for self i = (if grid_w self * grid_h self = 1 then 0 else i)"

definition anchor_for :: "model \<Rightarrow> nat \<Rightarrow> real \<times> real" where
  "anchor_for self b = (if length (ANCHORS self) = 1 then ANCHORS self ! 0 else ANCHORS self ! b)"

definition convert_label :: "model \<Rightarrow> nat \<Rightarrow> real list \<Rightarrow> real list" where
  "convert_label self i l =
     (let n = length l;
          lab_class = take (n - 4) l;
          lab_x = l ! (n - 4);
          lab_y = l ! (n - 3);
          lab_w = l ! (n - 2);
          lab_h = l ! (n - 1)
      in lab_class @ xywh_to_xyxy self (centre_for self i) lab_x lab_y lab_w lab_h)"

definition convert_box :: "model \<Rightarrow> nat \<Rightarrow> nat \<Rightarrow> real list \<Rightarrow> real list" where
  "convert_box self i b raw =
     (let pred_x = expit (raw ! 0);
          pred_y = expit (raw ! 1);
          pred_w = exp (raw ! 2) * fst (anchor_for self b);
          pred_h = exp (raw ! 3) * snd (anchor_for self b);
          pred_conf = expit (raw ! 4)
      in xywh_to_xyxy self (centre_for self i) pred_x pred_y pred_w pred_h @ [pred_conf])"

definition convert_pred :: "model \<Rightarrow> nat \<Rightarrow> real list \<Rightarrow> real list" where
  "convert_pred self i r =
     concat (map (\<lambda>b. convert_box self i b (reshape_boxes (NUM_BOXES self) r ! b))
        [0..<NUM_BOXES self])
       @ drop (NUM_BOXES self * 5) r"

definition yolo_coord_convert ::
  "model \<Rightarrow> real list list \<Rightarrow> real list list \<Rightarrow> (real list list \<times> real list list) outcome" where
  "yolo_coord_convert self labels preds =
     (if list_ex (\<lambda>l. length l < 4) labels then Raises ValueError
      else if grid_w self = 0 \<or> grid_h self = 0 then Raises ZeroDivisionError
      else if length labels \<noteq> grid_w self * grid_h self \<and> grid_w self * grid_h self \<noteq> 1
        then Raises ValueError
      else if list_ex (\<lambda>r. length r < NUM_BOXES self * 5) preds then Raises ValueError
      else if ANCHORS self = [] then Raises IndexError
      else if length (ANCHORS self) \<noteq> NUM_BOXES self \<and> length (ANCHORS self) \<noteq> 1
        then Raises ValueError
      else if length preds \<noteq> grid_w self * grid_h self \<and> grid_w self * grid_h self \<noteq> 1
        then Raises ValueError
      else Returns (map (\<lambda>(i, l). convert_label self i l) (enumerate 0 labels),
                    map (\<lambda>(i, r). convert_pred self i r) (enumerate 0 preds)))"

section \<open>Interpreting the outputs of images processed in patches\<close>

text \<open>
  The object-detection branch of \<^verbatim>\<open>forward_pass_with_interpreted_outputs\<close> with patching,
  from the raw outputs of the network on: \<^verbatim>\<open>total_outputs\<close> holds, for every image, one row
  for each patch, and a row holds 26 numbers for each grid square: five boxes
  \<^verbatim>\<open>[x, y, w, h, conf]\<close> and one class. The code fixes the numbers 5 and 26, the
  detection threshold 0.6 and the overlap threshold 0.3. Python's \<^verbatim>\<open>int\<close> truncates
  towards zero.
\<close>

definition py_int :: "real \<Rightarrow> int" where
  "py_int x = (if 0 \<le> x then \<lfloor>x\<rfloor> else \<lceil>x\<rceil>)"

definition box_confs :: "real list \<Rightarrow> nat \<Rightarrow> real list" where
  "box_confs img_row j =
     [expit (img_row ! (j * 26 + 4)), expit (img_row ! (j * 26 + 9)),
      expit (img_row ! (j * 26 + 14)), expit (img_row ! (j * 26 + 19)),
      expit (img_row ! (j * 26 + 24))]"

text \<open>
  The centre and the size of the box of grid square \<open>j\<close> of patch \<open>i\<close>: the variables
  \<^verbatim>\<open>x, y, w, h\<close> of the source. \<open>nph\<close> is \<^verbatim>\<open>num_patches_horiz\<close>.
\<close>

definition patch_xywh ::
  "model \<Rightarrow> nat \<Rightarrow> real list \<Rightarrow> nat \<Rightarrow> nat \<Rightarrow> nat \<Rightarrow> real \<times> real \<times> real \<times> real" where
  "patch_xywh self nph img_row i j max_conf_idx =
     (let pred_box = take 4 (drop (j * 26 + 5 * max_conf_idx) img_row);
          c_x = j mod grid_w self;
          c_y = j div grid_w self;
          x = (expit (pred_box ! 0) + real c_x) * (real (patch_width self) / real (grid_w self))
                + real ((i mod nph) * patch_width self);
          y = (expit (pred_box ! 1) + real c_y) * (real (patch_height self) / real (grid_h self))
                + real ((i div nph) * patch_height self);
          prior_w = fst (ANCHORS self ! max_conf_idx);
          prior_h = snd (ANCHORS self ! max_conf_idx);
          w = (exp (pred_box ! 2) * prior_w) * (real (image_width self) / real (grid_w self));
          h = (exp (pred_box ! 3) * prior_h) * (real (image_height self) / real (grid_h self))
      in (x, y, w, h))"

text \<open>
  The body of the loop over the grid squares: the boxes it appends to
  \<^verbatim>\<open>total_pred_boxes\<close>, none or one.
\<close>

definition patch_cell_boxes ::
  "model \<Rightarrow> nat \<Rightarrow> real list \<Rightarrow> nat \<Rightarrow> nat \<Rightarrow> error + real list list" where
  "patch_cell_boxes self nph img_row i j =
     (if length img_row \<le> j * 26 + 24 then Inl IndexError
      else
        let confs = box_confs img_row j;
            max_conf_idx = argmax confs
        in if 6 / 10 < confs ! max_conf_idx
           then
             if length (ANCHORS self) \<le> max_conf_idx then Inl IndexError
             else
               (case patch_xywh self nph img_row i j max_conf_idx of
                  (x, y, w, h) \<Rightarrow>
                    Inr [[real_of_int (py_int (x - w / 2)), real_of_int (py_int (y - h / 2)),
                          real_of_int (py_int (x + w / 2)), real_of_int (py_int (y + h / 2)),
                          confs ! max_conf_idx]])
           else Inr [])"

text \<open>A loop that appends what its body gives for each index, and stops at an error.\<close>

fun append_each :: "(nat \<Rightarrow> error + 'a list) \<Rightarrow> nat list \<Rightarrow> 'a list \<Rightarrow> error + 'a list" where
  "append_each f [] acc = Inr acc"
| "append_each f (j # js) acc =
     (case f j of Inl e \<Rightarrow> Inl e | Inr bs \<Rightarrow> append_each f js (acc @ bs))"

definition image_boxes ::
  "model \<Rightarrow> nat \<Rightarrow> nat \<Rightarrow> real list list \<Rightarrow> real list list \<Rightarrow> error + real list list" where
  "image_boxes self nph num_patches img_data total_pred_boxes =
     append_each
       (\<lambda>i. if length img_data \<le> i then Inl IndexError
            else append_each (patch_cell_boxes self nph (img_data ! i) i)
                   [0..<grid_w self * grid_h self] [])
       [0..<num_patches] total_pred_boxes"

text \<open>
  The suppression loop of this function: it takes the last index, and deletes it and
  every earlier index whose box has an IoU above 0.3 with the box taken.
\<close>

function interp_nms_loop :: "real list list \<Rightarrow> nat list \<Rightarrow> nat list \<Rightarrow> nat list" where
  "interp_nms_loop all_boxes idxs final_boxes_idxs =
     (if idxs = [] then final_boxes_idxs
      else
        let i = last idxs;
            kept = filter (\<lambda>j. \<not> np_gt (compute_iou (box_of (all_boxes ! i)) (box_of (all_boxes ! j)))
                      (3 / 10)) (butlast idxs)
        in interp_nms_loop all_boxes kept (final_boxes_idxs @ [i]))"
  by pat_completeness auto

termination
  by (relation "measure (\<lambda>(all_boxes, idxs, final_boxes_idxs). length idxs)")
    (auto intro!: le_less_trans [OF length_filter_le])

declare interp_nms_loop.simps [simp del]

text \<open>
  The loop over the images. \<^verbatim>\<open>total_pred_boxes\<close> is set to the empty list before the
  loop and not inside it; \<^verbatim>\<open>all_boxes\<close> and \<^verbatim>\<open>final_boxes_idxs\<close> are what the last pass
  of the loop has assigned, and the result is read from them after the loop. Indexing
  the empty \<^verbatim>\<open>all_boxes\<close> with \<^verbatim>\<open>[:, 4]\<close> raises \<^verbatim>\<open>IndexError\<close>.
\<close>

fun images_loop ::
  "model \<Rightarrow> nat \<Rightarrow> nat \<Rightarrow> real list list list \<Rightarrow> real list list
     \<Rightarrow> (real list list \<times> nat list) option \<Rightarrow> error + (real list list \<times> nat list) option" where
  "images_loop self nph num_patches [] total_pred_boxes assigned = Inr assigned"
| "images_loop self nph num_patches (img_data # rest) total_pred_boxes assigned =
     (case image_boxes self nph num_patches img_data total_pred_boxes of
        Inl e \<Rightarrow> Inl e
      | Inr all_boxes \<Rightarrow>
          if all_boxes = [] then Inl IndexError
          else images_loop self nph num_patches rest all_boxes
                 (Some (all_boxes, interp_nms_loop all_boxes (argsort (map conf all_boxes)) [])))"

definition interpreted_outputs_patching :: "model \<Rightarrow> real list list list \<Rightarrow> real list list outcome" where
  "interpreted_outputs_patching self total_outputs =
     (if patch_height self = 0 \<or> patch_width self = 0 then Raises ZeroDivisionError
      else
        let num_patches_vert = image_height self div patch_height self;
            num_patches_horiz = image_width self div patch_width self;
            num_patches = num_patches_vert * num_patches_horiz
        in case images_loop self num_patches_horiz num_patches total_outputs [] None of
             Inl e \<Rightarrow> Raises e
           | Inr None \<Rightarrow> Raises NameError
           | Inr (Some (all_boxes, final_boxes_idxs)) \<Rightarrow>
               Returns (map ((!) all_boxes) final_boxes_idxs))"

text \<open>
  A model for the examples with patches: an image of 100 by 50 pixels in two patches of
  50 by 50 pixels side by side, one grid square in each patch, five equal anchors.
\<close>

definition tiled_model :: model where
  "tiled_model =
     \<lparr>grid_w = 1, grid_h = 1, image_width = 100, image_height = 50,
      ANCHORS = [(1 / 5, 2 / 5), (1 / 5, 2 / 5), (1 / 5, 2 / 5), (1 / 5, 2 / 5), (1 / 5, 2 / 5)],
      NUM_BOXES = 5, THRESH_SIG = 6 / 10, THRESH_OVERLAP = 3 / 10, THRESH_CORRECT = 1 / 2,
      patch_height = 50, patch_width = 50\<rparr>"

text \<open>
  The state of the matching loop is well shaped when there is a label, every label row has
  a column 6, and every row of IoUs has one entry for each label.
\<close>

definition well_shaped :: "(real list \<times> npfloat list) list \<Rightarrow> real list list \<Rightarrow> bool" where
  "well_shaped pis im_lab \<longleftrightarrow>
     im_lab \<noteq> [] \<and> list_all (\<lambda>l. 6 < length l) im_lab
     \<and> list_all (\<lambda>pi. length (snd pi) = length im_lab) pis"

text \<open>
  A small model for the examples: a grid of 2 by 2 squares over an image of 100 by 100
  pixels, one anchor of one grid square, and the three default thresholds.
\<close>

definition small_model :: model where
  "small_model =
     \<lparr>grid_w = 2, grid_h = 2, image_width = 100, image_height = 100, ANCHORS = [(1, 1)],
      NUM_BOXES = 1, THRESH_SIG = 6 / 10, THRESH_OVERLAP = 3 / 10, THRESH_CORRECT = 1 / 2,
      patch_height = 50, patch_width = 50\<rparr>"

section \<open>Properties of the intersection over union\<close>

lemma intersection_area_nonneg: "0 \<le> intersection_area b1 b2"
  by (cases b1; cases b2) (simp add: Let_def)




lemma compute_iou_not_NInf: "compute_iou b1 b2 \<noteq> NInf"
  using intersection_area_nonneg [of b1 b2]
  by (auto simp: compute_iou_def np_div_def)

lemma compute_iou_self:
  assumes "x1 < x2" "y1 < y2"
  shows "compute_iou (x1, y1, x2, y2) (x1, y1, x2, y2) = Fin 1"
proof -
  have "0 < (x2 - x1) * (y2 - y1)"
    using assms by simp
  then show ?thesis
    using assms by (simp add: compute_iou_def np_div_def Let_def max_def)
qed

text \<open>
  C2 (as stated): for boxes whose union area is 0 the IoU is 0. The division of
  \<^verbatim>\<open>__compute_iou\<close> has no guard: two copies of the degenerate box \<open>(1, 1, 1, 3)\<close>
  have intersection 0 and union 0, and the result is \<^verbatim>\<open>nan\<close>.
\<close>

theorem compute_iou_degenerate_counterexample:
  "compute_iou (1, 1, 1, 3) (1, 1, 1, 3) = NaN"
  by (simp add: compute_iou_def np_div_def)

text \<open>
  C2 (amended): with \<open>i = max(0, x2 - x1) * max(0, y2 - y1)\<close> over the overlap corners and
  \<open>u\<close> the sum of the two areas minus \<open>i\<close>, the IoU is \<open>i / u\<close> whenever \<open>u\<close> is not 0.
  When \<open>u\<close> is 0 no error is raised and the result is never a finite number (so never 0):
  it is \<^verbatim>\<open>nan\<close> when \<open>i\<close> is 0 and an infinity otherwise.
\<close>

theorem compute_iou_spec:
  "compute_iou (a1, b1, a2, b2) (c1, d1, c2, d2) =
     (let i = max 0 (min a2 c2 - max a1 c1) * max 0 (min b2 d2 - max b1 d1);
          u = (a2 - a1) * (b2 - b1) + (c2 - c1) * (d2 - d1) - i
      in if u = 0 then (if i = 0 then NaN else PInf) else Fin (i / u))"
proof -
  define i where "i = max 0 (min a2 c2 - max a1 c1) * max 0 (min b2 d2 - max b1 d1)"
  define u where "u = (a2 - a1) * (b2 - b1) + (c2 - c1) * (d2 - d1) - i"
  have i: "intersection_area (a1, b1, a2, b2) (c1, d1, c2, d2) = i"
    by (simp add: i_def Let_def)
  have u: "union_area (a1, b1, a2, b2) (c1, d1, c2, d2) = u"
    unfolding union_area.simps i by (simp add: u_def)
  have "0 \<le> i"
    unfolding i_def by simp
  then have "compute_iou (a1, b1, a2, b2) (c1, d1, c2, d2) =
      (if u = 0 then (if i = 0 then NaN else PInf) else Fin (i / u))"
    unfolding compute_iou_def i u np_div_def by auto
  then show ?thesis
    unfolding Let_def i_def [symmetric] u_def [symmetric] .
qed

section \<open>The suppression loop\<close>

lemma nms_loop_Nil: "nms_loop t iou [] acc = Some acc"
  by (subst nms_loop.simps) simp

lemma nms_loop_step:
  "co \<noteq> [] \<Longrightarrow> nms_loop t iou co acc =
     (if non_overlap t iou (last co) co = [] then Some (acc @ [last co])
      else nms_loop t iou (non_overlap t iou (last co) co) (acc @ [last co]))"
  by (subst nms_loop.simps) (simp add: Let_def)

lemma last_filter_keep: "xs \<noteq> [] \<Longrightarrow> P (last xs) \<Longrightarrow> last (filter P xs) = last xs"
  by (induction xs rule: rev_induct) auto

lemma non_overlap_self:
  assumes "co \<noteq> []" "np_lt (iou (last co) (last co)) t"
  shows "non_overlap t iou (last co) co \<noteq> []"
    and "last (non_overlap t iou (last co) co) = last co"
proof -
  have "last co \<in> set (non_overlap t iou (last co) co)"
    using assms by (simp add: non_overlap_def)
  then show "non_overlap t iou (last co) co \<noteq> []"
    by auto
  show "last (non_overlap t iou (last co) co) = last co"
    unfolding non_overlap_def using assms by (intro last_filter_keep)
qed

lemma nms_loop_diverges_aux:
  "nms_loop t iou co acc = Some out \<Longrightarrow> \<not> (co \<noteq> [] \<and> np_lt (iou (last co) (last co)) t)"
proof (induction t iou co acc out rule: nms_loop.raw_induct [rotated, consumes 1])
  case (1 f t iou co acc out)
  show ?case
  proof
    assume a: "co \<noteq> [] \<and> np_lt (iou (last co) (last co)) t"
    then have k: "non_overlap t iou (last co) co \<noteq> []"
      and l: "last (non_overlap t iou (last co) co) = last co"
      using non_overlap_self by blast+
    from 1(2) a k have "f t iou (non_overlap t iou (last co) co) (acc @ [last co]) = Some out"
      by (simp add: Let_def)
    from 1(1) [OF this] k l a show False
      by simp
  qed
qed

lemma nms_loop_diverges:
  "co \<noteq> [] \<Longrightarrow> np_lt (iou (last co) (last co)) t \<Longrightarrow> nms_loop t iou co acc = None"
  using nms_loop_diverges_aux [of t iou co acc] by (cases "nms_loop t iou co acc") auto

lemma non_overlap_shorter:
  "co \<noteq> [] \<Longrightarrow> \<not> np_lt (iou (last co) (last co)) t \<Longrightarrow>
     length (non_overlap t iou (last co) co) < length co"
  unfolding non_overlap_def by (rule length_filter_less [of "last co"]) auto


lemma non_overlap_subset: "set (non_overlap t iou c co) \<subseteq> set co"
  by (auto simp: non_overlap_def)

lemma nms_loop_terminates:
  "\<forall>i \<in> set co. \<not> np_lt (iou i i) t \<Longrightarrow> nms_loop t iou co acc = Some (acc @ nms_select t iou co)"
proof (induction co arbitrary: acc rule: length_induct)
  case (1 co)
  show ?case
  proof (cases "co = []")
    case True
    then show ?thesis
      by (simp add: nms_loop_Nil nms_select.simps)
  next
    case False
    let ?k = "non_overlap t iou (last co) co"
    from False 1(2) have ok: "\<not> np_lt (iou (last co) (last co)) t"
      by simp
    have sel: "nms_select t iou co = last co # nms_select t iou ?k"
      using False ok by (subst nms_select.simps) simp
    have "length ?k < length co"
      using False ok by (rule non_overlap_shorter)
    moreover have "\<forall>i \<in> set ?k. \<not> np_lt (iou i i) t"
      using 1(2) non_overlap_subset by blast
    ultimately have "nms_loop t iou ?k (acc @ [last co]) = Some ((acc @ [last co]) @ nms_select t iou ?k)"
      using 1(1) by blast
    then show ?thesis
      using False by (simp add: nms_loop_step sel nms_select.simps [of t iou "[]"])
  qed
qed


lemma subseq_distinct_imp: "subseq xs ys \<Longrightarrow> distinct ys \<Longrightarrow> distinct xs"
  by (induction rule: list_emb.induct) (auto dest: list_emb_set)



lemma nms_select_Cons:
  "co \<noteq> [] \<Longrightarrow> \<not> np_lt (iou (last co) (last co)) t \<Longrightarrow>
     nms_select t iou co = last co # nms_select t iou (non_overlap t iou (last co) co)"
  by (subst nms_select.simps) simp

lemma non_overlap_butlast:
  assumes "co \<noteq> []" "\<not> np_lt (iou (last co) (last co)) t"
  shows "non_overlap t iou (last co) co = non_overlap t iou (last co) (butlast co)"
proof -
  have "co = butlast co @ [last co]"
    using assms(1) by simp
  then have "non_overlap t iou (last co) co =
      non_overlap t iou (last co) (butlast co @ [last co])"
    by simp
  also have "\<dots> = non_overlap t iou (last co) (butlast co)"
    using assms(2) by (simp add: non_overlap_def)
  finally show ?thesis .
qed

lemma nms_select_subseq: "subseq (rev (nms_select t iou co)) co"
proof (induction t iou co rule: nms_select.induct)
  case (1 t iou co)
  show ?case
  proof (cases "co = [] \<or> np_lt (iou (last co) (last co)) t")
    case True
    then show ?thesis
      by (subst nms_select.simps) simp
  next
    case False
    let ?k = "non_overlap t iou (last co) co"
    have "subseq (rev (nms_select t iou ?k)) ?k"
      using 1 False by simp
    moreover have "subseq ?k (butlast co)"
      using False by (simp add: non_overlap_butlast) (simp add: non_overlap_def)
    ultimately have "subseq (rev (nms_select t iou ?k)) (butlast co)"
      by (rule subseq_order.trans)
    then have "subseq (rev (nms_select t iou ?k) @ [last co]) (butlast co @ [last co])"
      using subseq_append by blast
    moreover have "butlast co @ [last co] = co"
      using False by simp
    ultimately have "subseq (rev (nms_select t iou ?k) @ [last co]) co"
      by (simp only:)
    then show ?thesis
      using False by (simp add: nms_select_Cons)
  qed
qed


lemma nms_select_distinct: "distinct co \<Longrightarrow> distinct (nms_select t iou co)"
  using subseq_distinct_imp [OF nms_select_subseq [of t iou co]] by simp





lemma np_lt_mono: "np_lt x t1 \<Longrightarrow> t1 \<le> t2 \<Longrightarrow> np_lt x t2"
  by (cases x) auto

text \<open>
  C8 (as stated): the number of rows that the filter returns does not decrease when the
  overlap threshold is raised. Four boxes A, B, C, D in descending confidence, with
  IoU(A, B) = 0.25, IoU(B, C) = IoU(B, D) = 0.45 and all other pairs below 0.15: at the
  threshold 0.2, A removes B and the filter returns A, C, D; at 0.3, B stays, removes C
  and D, and the filter returns A, B.
\<close>

theorem nms_size_not_monotone_counterexample:
  "yolo_filter_predictions (small_model\<lparr>THRESH_OVERLAP := 2 / 10\<rparr>)
     [[0, 6, 100, 16, 9 / 10, 1], [0, 0, 100, 10, 8 / 10, 1],
      [0, 0, 45, 10, 7 / 10, 1], [55, 0, 100, 10, 65 / 100, 1]]
     = Returns (Some [[0, 6, 100, 16, 9 / 10, 1], [0, 0, 45, 10, 7 / 10, 1],
         [55, 0, 100, 10, 65 / 100, 1]])
   \<and> yolo_filter_predictions (small_model\<lparr>THRESH_OVERLAP := 3 / 10\<rparr>)
     [[0, 6, 100, 16, 9 / 10, 1], [0, 0, 100, 10, 8 / 10, 1],
      [0, 0, 45, 10, 7 / 10, 1], [55, 0, 100, 10, 65 / 100, 1]]
     = Returns (Some [[0, 6, 100, 16, 9 / 10, 1], [0, 0, 100, 10, 8 / 10, 1]])"
  by code_simp

text \<open>
  C8 (amended): in one pass of the loop, for the same selected box and the same remaining
  list, raising the overlap threshold never removes more: the entries kept under the
  lower threshold are a sublist of the entries kept under the higher one. (The size of the
  filter's output is not monotone in the threshold.)
\<close>

theorem non_overlap_mono:
  assumes "t1 \<le> t2"
  shows "subseq (non_overlap t1 iou cur_grid conf_order) (non_overlap t2 iou cur_grid conf_order)
    \<and> length conf_order - length (non_overlap t2 iou cur_grid conf_order)
        \<le> length conf_order - length (non_overlap t1 iou cur_grid conf_order)"
proof -
  let ?P1 = "\<lambda>j. np_lt (iou cur_grid j) t1"
  let ?P2 = "\<lambda>j. np_lt (iou cur_grid j) t2"
  have "filter ?P1 conf_order = filter ?P1 (filter ?P2 conf_order)"
    using assms by (auto intro: filter_cong dest: np_lt_mono)
  then have sub: "subseq (non_overlap t1 iou cur_grid conf_order)
      (non_overlap t2 iou cur_grid conf_order)"
    unfolding non_overlap_def by (metis subseq_filter_left)
  then have "length (non_overlap t1 iou cur_grid conf_order)
      \<le> length (non_overlap t2 iou cur_grid conf_order)"
    by (rule list_emb_length)
  with sub show ?thesis
    by simp
qed

text \<open>
  Witness of C8: box 0 against the list \<open>[2, 1, 0]\<close>; the threshold 0.2 keeps box 2, the
  threshold 0.3 keeps boxes 2 and 1.
\<close>

theorem non_overlap_mono_witness:
  "(2 / 10 :: real) \<le> 3 / 10
   \<and> subseq (non_overlap (2 / 10) (pair_iou [[0, 6, 100, 16], [0, 0, 100, 10], [0, 0, 45, 10]]) 0 [2, 1, 0])
        (non_overlap (3 / 10) (pair_iou [[0, 6, 100, 16], [0, 0, 100, 10], [0, 0, 45, 10]]) 0 [2, 1, 0])
   \<and> non_overlap (2 / 10) (pair_iou [[0, 6, 100, 16], [0, 0, 100, 10], [0, 0, 45, 10]]) 0 [2, 1, 0] = [2]
   \<and> non_overlap (3 / 10) (pair_iou [[0, 6, 100, 16], [0, 0, 100, 10], [0, 0, 45, 10]]) 0 [2, 1, 0] = [2, 1]"
proof -
  have h: "(2 / 10 :: real) \<le> 3 / 10"
    by simp
  have "non_overlap (2 / 10) (pair_iou [[0, 6, 100, 16], [0, 0, 100, 10], [0, 0, 45, 10]]) 0 [2, 1, 0] = [2]"
    by code_simp
  moreover have "non_overlap (3 / 10) (pair_iou [[0, 6, 100, 16], [0, 0, 100, 10], [0, 0, 45, 10]]) 0 [2, 1, 0] = [2, 1]"
    by code_simp
  ultimately show ?thesis
    using h non_overlap_mono [OF h, of "pair_iou [[0, 6, 100, 16], [0, 0, 100, 10], [0, 0, 45, 10]]" 0 "[2, 1, 0]"]
    by simp
qed

section \<open>The filtered predictions\<close>

lemma argmax_by_less: "xs \<noteq> [] \<Longrightarrow> argmax_by ge xs < length xs"
  by (induction ge xs rule: argmax_by.induct) (auto simp: Let_def)

lemma set_argsort: "set (argsort xs) = {0..<length xs}"
  by (simp add: argsort_def)




lemma length_argsort: "length (argsort xs) = length xs"
  by (simp add: argsort_def)

















lemma yolo_filter_predictions_returns:
  assumes "preds \<noteq> []" and "0 < NUM_BOXES self"
    and "\<forall>r \<in> set preds. NUM_BOXES self * 5 \<le> length r"
    and "significant self preds \<noteq> []"
    and "\<forall>pc \<in> set (significant self preds).
          \<not> np_lt (compute_iou (box_of (fst pc)) (box_of (fst pc))) (THRESH_OVERLAP self)"
  shows "\<exists>out. yolo_filter_predictions self preds = Returns (Some out) \<and> out \<noteq> []"
proof -
  let ?sig = "significant self preds"
  let ?P = "map fst ?sig"
  let ?t = "THRESH_OVERLAP self"
  let ?co = "argsort (map conf ?P)"
  have ok: "\<forall>i \<in> set ?co. \<not> np_lt (pair_iou ?P i i) ?t"
    using assms(5) by (simp add: set_argsort pair_iou_def)
  then have loop: "nms_loop ?t (pair_iou ?P) ?co [] = Some ([] @ nms_select ?t (pair_iou ?P) ?co)"
    by (rule nms_loop_terminates)
  have co: "?co \<noteq> []"
    using assms(4) length_argsort [of "map conf ?P"] by auto
  then have "last ?co \<in> set ?co"
    by simp
  with ok co have sel: "nms_select ?t (pair_iou ?P) ?co \<noteq> []"
    by (simp add: nms_select_Cons)
  have "\<not> list_ex (\<lambda>r. length r < NUM_BOXES self * 5) preds"
    using assms(3) by (auto simp: list_ex_iff)
  then have "yolo_filter_predictions self preds = yolo_nms self ?sig"
    using assms(1,2,4) by (simp add: yolo_filter_predictions_def)
  also have "\<dots> = Returns (Some (map (\<lambda>k. ?P ! k @ map snd ?sig ! k)
      (nms_select ?t (pair_iou ?P) ?co)))"
    using loop by (simp add: yolo_nms_def Let_def)
  finally show ?thesis
    using sel by simp
qed

lemma single_candidate:
  assumes "preds \<noteq> []" and "0 < NUM_BOXES self"
    and "\<forall>r \<in> set preds. NUM_BOXES self * 5 \<le> length r"
    and "significant self preds = [(p, c)]"
  shows "yolo_filter_predictions self preds =
     (if np_lt (compute_iou (box_of p) (box_of p)) (THRESH_OVERLAP self) then Diverges
      else Returns (Some [p @ c]))"
proof -
  let ?t = "THRESH_OVERLAP self"
  have "\<not> list_ex (\<lambda>r. length r < NUM_BOXES self * 5) preds"
    using assms(3) by (auto simp: list_ex_iff)
  then have f: "yolo_filter_predictions self preds = yolo_nms self [(p, c)]"
    using assms(1,2,4) by (simp add: yolo_filter_predictions_def)
  have co: "argsort [conf p] = [0]"
    by (simp add: argsort_def)
  have iou: "pair_iou [p] 0 0 = compute_iou (box_of p) (box_of p)"
    by (simp add: pair_iou_def)
  show ?thesis
  proof (cases "np_lt (compute_iou (box_of p) (box_of p)) ?t")
    case True
    then have "nms_loop ?t (pair_iou [p]) [0] [] = None"
      by (intro nms_loop_diverges) (simp_all add: iou)
    with True show ?thesis
      by (simp add: f yolo_nms_def co)
  next
    case False
    then have "nms_loop ?t (pair_iou [p]) [0] [] = Some [0]"
      by (simp add: nms_loop_step non_overlap_def iou)
    with False show ?thesis
      by (simp add: f yolo_nms_def co)
  qed
qed

text \<open>
  C3: the loop removes, beside the box it has taken, every remaining box whose IoU with it
  exceeds \<^verbatim>\<open>_THRESH_OVERLAP\<close>, and a box whose IoU equals the threshold stays. The mask
  of \<^verbatim>\<open>__yolo_filter_predictions\<close> keeps the boxes with \<^verbatim>\<open>pair_iou < _THRESH_OVERLAP\<close>:
  the boxes \<open>(0, 0, 8, 1)\<close> and \<open>(5, 0, 10, 1)\<close> have the IoU \<open>3 / 10\<close>, the default
  threshold, and the second one is removed.
\<close>

theorem nms_suppresses_at_threshold:
  "compute_iou (0, 0, 8, 1) (5, 0, 10, 1) = Fin (THRESH_OVERLAP small_model)
   \<and> yolo_filter_predictions small_model [[0, 0, 8, 1, 9 / 10, 1], [5, 0, 10, 1, 8 / 10, 1]]
     = Returns (Some [[0, 0, 8, 1, 9 / 10, 1]])"
  by code_simp




section \<open>Matching predictions with labels\<close>

lemma np_argmax_less: "ious \<noteq> [] \<Longrightarrow> np_argmax ious < length ious"
  unfolding np_argmax_def by (rule argmax_by_less)

lemma length_filter_update:
  "j < length xs \<Longrightarrow> P (xs ! j) \<Longrightarrow> \<not> P y \<Longrightarrow>
     Suc (length (filter P (xs[j := y]))) = length (filter P xs)"
proof (induction xs arbitrary: j)
  case Nil
  then show ?case by simp
next
  case (Cons x xs)
  then show ?case
    by (cases j) auto
qed

lemma matched_mark: "6 < length l \<Longrightarrow> matched (l[6 := 1])"
  by (simp add: matched_def)

lemma mark_matched_props:
  assumes "j < length im_lab" "6 < length (im_lab ! j)"
  shows "length (mark_matched j im_lab) = length im_lab"
    and "i < length im_lab \<Longrightarrow> matched (mark_matched j im_lab ! i) = (i = j \<or> matched (im_lab ! i))"
    and "\<forall>l \<in> set im_lab. 6 < length l \<Longrightarrow> \<forall>l \<in> set (mark_matched j im_lab). 6 < length l"
proof -
  show "length (mark_matched j im_lab) = length im_lab"
    by (simp add: mark_matched_def)
  show "matched (mark_matched j im_lab ! i) = (i = j \<or> matched (im_lab ! i))" if "i < length im_lab"
    using that assms by (auto simp: mark_matched_def nth_list_update matched_mark)
  show "\<forall>l \<in> set (mark_matched j im_lab). 6 < length l" if "\<forall>l \<in> set im_lab. 6 < length l"
  proof
    fix l
    assume "l \<in> set (mark_matched j im_lab)"
    then have "l \<in> insert ((im_lab ! j)[6 := 1]) (set im_lab)"
      unfolding mark_matched_def using set_update_subset_insert by fastforce
    with that assms(2) show "6 < length l"
      by auto
  qed
qed

lemma well_shaped_Cons:
  assumes "well_shaped ((p, ious) # rest) im_lab"
  shows "np_argmax ious < length im_lab" and "6 < length (im_lab ! np_argmax ious)"
    and "well_shaped rest im_lab" and "well_shaped rest (mark_matched (np_argmax ious) im_lab)"
proof -
  from assms have ne: "im_lab \<noteq> []" and w: "\<forall>l \<in> set im_lab. 6 < length l"
    and len: "length ious = length im_lab" and rest: "list_all (\<lambda>pi. length (snd pi) = length im_lab) rest"
    by (auto simp: well_shaped_def list_all_iff)
  from ne len have "ious \<noteq> []"
    by auto
  then show j: "np_argmax ious < length im_lab"
    using np_argmax_less [of ious] len by simp
  with w show l: "6 < length (im_lab ! np_argmax ious)"
    by simp
  show "well_shaped rest im_lab"
    using ne w rest by (simp add: well_shaped_def list_all_iff)
  show "well_shaped rest (mark_matched (np_argmax ious) im_lab)"
    using ne rest mark_matched_props(3) [OF j l w] mark_matched_props(1) [OF j l]
    by (auto simp: well_shaped_def list_all_iff)
qed

lemma match_loop_length: "length (match_loop thresh pis im_lab) = length pis"
  by (induction thresh pis im_lab rule: match_loop.induct) (auto simp: Let_def)

lemma match_loop_fst: "map fst (match_loop thresh pis im_lab) = map (conf \<circ> fst) pis"
  by (induction thresh pis im_lab rule: match_loop.induct) (auto simp: Let_def)

lemma match_loop_snd: "list_all (\<lambda>d. snd d = 0 \<or> snd d = 1) (match_loop thresh pis im_lab)"
  by (induction thresh pis im_lab rule: match_loop.induct) (auto simp: Let_def)

lemma match_loop_count:
  "well_shaped pis im_lab \<Longrightarrow>
     length (filter (\<lambda>d. snd d = 1) (match_loop thresh pis im_lab))
       \<le> length (filter (\<lambda>l. \<not> matched l) im_lab)"
proof (induction thresh pis im_lab rule: match_loop.induct)
  case (1 thresh im_lab)
  then show ?case by simp
next
  case (2 thresh p ious rest im_lab)
  let ?j = "np_argmax ious"
  note ws = well_shaped_Cons [OF 2(3)]
  show ?case
  proof (cases "np_ge (ious ! ?j) thresh \<and> \<not> matched (im_lab ! ?j)")
    case True
    have "Suc (length (filter (\<lambda>l. \<not> matched l) (mark_matched ?j im_lab)))
        = length (filter (\<lambda>l. \<not> matched l) im_lab)"
      unfolding mark_matched_def using ws(1) True ws(2)
      by (intro length_filter_update) (auto simp: matched_mark)
    moreover have "length (filter (\<lambda>d. snd d = 1) (match_loop thresh rest (mark_matched ?j im_lab)))
        \<le> length (filter (\<lambda>l. \<not> matched l) (mark_matched ?j im_lab))"
      using 2(1) [OF refl True ws(4)] .
    ultimately show ?thesis
      using True by (simp add: Let_def)
  next
    case False
    have "length (filter (\<lambda>d. snd d = 1) (match_loop thresh rest im_lab))
        \<le> length (filter (\<lambda>l. \<not> matched l) im_lab)"
      using 2(2) [OF refl False ws(3)] .
    then show ?thesis
      using False by (auto simp: Let_def)
  qed
qed

lemma all_less_Suc0: "(\<forall>k<Suc n. P k) \<longleftrightarrow> P 0 \<and> (\<forall>k<n. P (Suc k))"
  by (auto simp: less_Suc_eq_0_disj)

lemma well_shaped_nth:
  assumes "well_shaped pis im_lab" "i < length pis"
  shows "np_argmax (snd (pis ! i)) < length im_lab"
proof -
  from assms have "length (snd (pis ! i)) = length im_lab" "im_lab \<noteq> []"
    by (auto simp: well_shaped_def list_all_length)
  moreover from this have "snd (pis ! i) \<noteq> []"
    by (metis length_0_conv)
  ultimately show ?thesis
    using np_argmax_less [of "snd (pis ! i)"] by simp
qed

lemma match_loop_true_positive:
  assumes "well_shaped pis im_lab" "i < length pis"
  shows "(snd (match_loop thresh pis im_lab ! i) = 1) =
     (np_ge (snd (pis ! i) ! np_argmax (snd (pis ! i))) thresh
      \<and> \<not> matched (im_lab ! np_argmax (snd (pis ! i)))
      \<and> (\<forall>k<i. snd (match_loop thresh pis im_lab ! k) = 1 \<longrightarrow>
            np_argmax (snd (pis ! k)) \<noteq> np_argmax (snd (pis ! i))))"
  using assms
proof (induction thresh pis im_lab arbitrary: i rule: match_loop.induct)
  case (1 thresh im_lab)
  then show ?case by simp
next
  case (2 thresh p ious rest im_lab)
  let ?j = "np_argmax ious"
  note ws = well_shaped_Cons [OF 2(3)]
  show ?case
  proof (cases i)
    case 0
    then show ?thesis
      by (simp add: Let_def)
  next
    case (Suc i')
    with 2(4) have i': "i' < length rest"
      by simp
    let ?j' = "np_argmax (snd (rest ! i'))"
    have j': "?j' < length im_lab"
      using ws(3) i' by (rule well_shaped_nth)
    show ?thesis
    proof (cases "np_ge (ious ! ?j) thresh \<and> \<not> matched (im_lab ! ?j)")
      case True
      let ?recs = "match_loop thresh rest (mark_matched ?j im_lab)"
      have ih: "(snd (?recs ! i') = 1) =
         (np_ge (snd (rest ! i') ! ?j') thresh
          \<and> \<not> matched (mark_matched ?j im_lab ! ?j')
          \<and> (\<forall>k<i'. snd (?recs ! k) = 1 \<longrightarrow> np_argmax (snd (rest ! k)) \<noteq> ?j'))"
        using 2(1) [OF refl True ws(4) i'] .
      have m: "matched (mark_matched ?j im_lab ! ?j') = (?j' = ?j \<or> matched (im_lab ! ?j'))"
        using mark_matched_props(2) [OF ws(1) ws(2) j'] .
      have "match_loop thresh ((p, ious) # rest) im_lab = (conf p, 1) # ?recs"
        using True by (auto simp: Let_def)
      then show ?thesis
        using True ih m unfolding Suc all_less_Suc0 by auto
    next
      case False
      let ?recs = "match_loop thresh rest im_lab"
      have ih: "(snd (?recs ! i') = 1) =
         (np_ge (snd (rest ! i') ! ?j') thresh
          \<and> \<not> matched (im_lab ! ?j')
          \<and> (\<forall>k<i'. snd (?recs ! k) = 1 \<longrightarrow> np_argmax (snd (rest ! k)) \<noteq> ?j'))"
        using 2(2) [OF refl False ws(3) i'] .
      have "match_loop thresh ((p, ious) # rest) im_lab = (conf p, 0) # ?recs"
        using False by (auto simp: Let_def)
      then show ?thesis
        using ih unfolding Suc all_less_Suc0 by auto
    qed
  qed
qed

lemma length_pair_ious: "length (pair_ious im_pred im_lab) = length im_pred"
  by (simp add: pair_ious_def)

lemma nth_pair_ious:
  "i < length im_pred \<Longrightarrow>
     pair_ious im_pred im_lab ! i = map (\<lambda>l. compute_iou (box_of (im_pred ! i)) (label_box l)) im_lab"
  by (simp add: pair_ious_def)

lemma match_image_Some:
  assumes "match_image self (Some im_lab) im_pred = Inr recs"
  shows "recs = match_loop (THRESH_CORRECT self) (zip im_pred (pair_ious im_pred im_lab))
           (map (\<lambda>l. l @ [0]) im_lab)"
    and "im_pred \<noteq> [] \<Longrightarrow>
           well_shaped (zip im_pred (pair_ious im_pred im_lab)) (map (\<lambda>l. l @ [0]) im_lab)"
proof -
  show "recs = match_loop (THRESH_CORRECT self) (zip im_pred (pair_ious im_pred im_lab))
           (map (\<lambda>l. l @ [0]) im_lab)"
    using assms by (auto simp: match_image_def split: if_splits)
  assume ne: "im_pred \<noteq> []"
  with assms have lab: "im_lab \<noteq> []" and w: "\<not> list_ex (\<lambda>l. length l < 6) im_lab"
    by (auto simp: match_image_def split: if_splits)
  have "list_all (\<lambda>pi. length (snd pi) = length (map (\<lambda>l. l @ [0]) im_lab))
      (zip im_pred (pair_ious im_pred im_lab))"
    by (auto simp: list_all_length length_pair_ious nth_pair_ious)
  moreover have "list_all (\<lambda>l. 6 < length l) (map (\<lambda>l. l @ [0]) im_lab)"
    using w by (auto simp: list_all_iff list_ex_iff not_less)
  ultimately show "well_shaped (zip im_pred (pair_ious im_pred im_lab)) (map (\<lambda>l. l @ [0]) im_lab)"
    using lab by (simp add: well_shaped_def)
qed

lemma match_image_fst:
  assumes "match_image self lab im_pred = Inr recs"
  shows "map fst recs = map conf im_pred"
proof (cases lab)
  case None
  with assms show ?thesis
    by (auto simp: match_image_def comp_def split: if_splits)
next
  case (Some im_lab)
  have "map (conf \<circ> fst) (zip im_pred (pair_ious im_pred im_lab)) = map conf im_pred"
    by (simp add: map_fst_zip length_pair_ious flip: map_map)
  with match_image_Some(1) [OF assms [unfolded Some]] show ?thesis
    by (simp add: match_loop_fst)
qed

lemma match_image_count:
  assumes "match_image self lab im_pred = Inr recs"
  shows "length (filter (\<lambda>d. snd d = 1) recs)
     \<le> (case lab of None \<Rightarrow> 0 | Some im_lab \<Rightarrow> length im_lab)"
proof (cases lab)
  case None
  with assms have "recs = map (\<lambda>p. (conf p, 0)) im_pred"
    by (auto simp: match_image_def split: if_splits)
  then show ?thesis
    using None by simp
next
  case (Some im_lab)
  let ?lab = "map (\<lambda>l. l @ [0]) im_lab"
  note mi = match_image_Some [OF assms [unfolded Some]]
  have "length (filter (\<lambda>d. snd d = 1) recs) \<le> length im_lab"
  proof (cases "im_pred = []")
    case True
    with mi(1) show ?thesis
      by simp
  next
    case False
    have "length (filter (\<lambda>d. snd d = 1) recs) \<le> length (filter (\<lambda>l. \<not> matched l) ?lab)"
      unfolding mi(1) using mi(2) [OF False] by (rule match_loop_count)
    also have "\<dots> \<le> length ?lab"
      by (rule length_filter_le)
    finally show ?thesis
      by simp
  qed
  then show ?thesis
    using Some by simp
qed

text \<open>
  C4: within an image every label is matched with at most one prediction. The
  predictions of an image give one detection each, marked 0 or 1; the number of true
  positives is at most the number of labels of the image (none when the image has no
  label); and for label rows of six entries, prediction \<open>i\<close> is a true positive exactly when
  the label of its highest IoU has an IoU of at least \<^verbatim>\<open>_THRESH_CORRECT\<close> and no earlier
  true positive of the image has the same label.
\<close>

theorem ground_truth_matched_once:
  assumes "match_image self lab im_pred = Inr recs"
  shows "length recs = length im_pred
     \<and> list_all (\<lambda>d. snd d = 0 \<or> snd d = 1) recs
     \<and> length (filter (\<lambda>d. snd d = 1) recs) \<le> (case lab of None \<Rightarrow> 0 | Some im_lab \<Rightarrow> length im_lab)
     \<and> (\<forall>im_lab. lab = Some im_lab \<and> list_all (\<lambda>l. length l = 6) im_lab \<longrightarrow>
          (\<forall>i<length im_pred.
             (snd (recs ! i) = 1) =
               (np_ge (pair_ious im_pred im_lab ! i ! np_argmax (pair_ious im_pred im_lab ! i))
                    (THRESH_CORRECT self)
                \<and> (\<forall>k<i. snd (recs ! k) = 1 \<longrightarrow>
                      np_argmax (pair_ious im_pred im_lab ! k)
                        \<noteq> np_argmax (pair_ious im_pred im_lab ! i)))))"
proof -
  have len: "length recs = length im_pred"
    using match_image_fst [OF assms] by (metis length_map)
  show ?thesis
  proof (cases lab)
    case None
    with assms have "recs = map (\<lambda>p. (conf p, 0)) im_pred"
      by (auto simp: match_image_def split: if_splits)
    then show ?thesis
      using None by (simp add: list_all_iff)
  next
    case (Some im_lab)
    let ?pis = "zip im_pred (pair_ious im_pred im_lab)"
    let ?lab = "map (\<lambda>l. l @ [0]) im_lab"
    note mi = match_image_Some [OF assms [unfolded Some]]
    have marks: "list_all (\<lambda>d. snd d = 0 \<or> snd d = 1) recs"
      unfolding mi(1) by (rule match_loop_snd)
    have count: "length (filter (\<lambda>d. snd d = 1) recs) \<le> length im_lab"
      using match_image_count [OF assms] Some by simp
    have tp: "(snd (recs ! i) = 1) =
        (np_ge (pair_ious im_pred im_lab ! i ! np_argmax (pair_ious im_pred im_lab ! i))
             (THRESH_CORRECT self)
         \<and> (\<forall>k<i. snd (recs ! k) = 1 \<longrightarrow>
               np_argmax (pair_ious im_pred im_lab ! k)
                 \<noteq> np_argmax (pair_ious im_pred im_lab ! i)))"
      if six: "list_all (\<lambda>l. length l = 6) im_lab" and i: "i < length im_pred" for i
    proof -
      from i have ne: "im_pred \<noteq> []"
        by auto
      have ws: "well_shaped ?pis ?lab"
        using mi(2) [OF ne] .
      have i': "i < length ?pis"
        using i by (simp add: length_pair_ious)
      have snd_nth: "snd (?pis ! k) = pair_ious im_pred im_lab ! k" if "k < length im_pred" for k
        using that by (simp add: length_pair_ious)
      have "np_argmax (snd (?pis ! i)) < length ?lab"
        using ws i' by (rule well_shaped_nth)
      then have "\<not> matched (?lab ! np_argmax (snd (?pis ! i)))"
        using six by (simp add: matched_def list_all_length nth_append)
      moreover have "(\<forall>k<i. snd (recs ! k) = 1 \<longrightarrow> np_argmax (snd (?pis ! k)) \<noteq> np_argmax (snd (?pis ! i)))
          = (\<forall>k<i. snd (recs ! k) = 1 \<longrightarrow> np_argmax (pair_ious im_pred im_lab ! k)
                 \<noteq> np_argmax (pair_ious im_pred im_lab ! i))"
        using i by (auto simp: snd_nth)
      ultimately show ?thesis
        using match_loop_true_positive [OF ws i', of "THRESH_CORRECT self"]
        unfolding mi(1) [symmetric] by (simp add: snd_nth i)
    qed
    show ?thesis
      using len marks count tp Some by simp
  qed
qed

text \<open>
  Witness of C4: two labels and three predictions. The third prediction lies exactly on
  the first label, which the first prediction has been matched with: it is a false
  positive.
\<close>

theorem ground_truth_matched_once_witness:
  "match_image small_model (Some [[1, 0, 50, 0, 70, 20], [1, 0, 0, 0, 10, 10]])
      [[52, 2, 72, 22, 9 / 10, 1], [0, 0, 10, 10, 8 / 10, 1], [50, 0, 70, 20, 7 / 10, 1]]
     = Inr [(9 / 10, 1), (8 / 10, 1), (7 / 10, 0)]
   \<and> length (filter (\<lambda>d. snd d = 1) [(9 / 10 :: real, 1 :: nat), (8 / 10, 1), (7 / 10, 0)])
       \<le> length [[1, 0, 50, 0, 70, 20], [1, 0, 0, 0, 10, 10 :: real]]
   \<and> list_all (\<lambda>l. length l = 6) [[1, 0, 50, 0, 70, 20], [1, 0, 0, 0, 10, 10 :: real]]"
proof -
  have h: "match_image small_model (Some [[1, 0, 50, 0, 70, 20], [1, 0, 0, 0, 10, 10]])
      [[52, 2, 72, 22, 9 / 10, 1], [0, 0, 10, 10, 8 / 10, 1], [50, 0, 70, 20, 7 / 10, 1]]
     = Inr [(9 / 10, 1), (8 / 10, 1), (7 / 10, 0)]"
    by code_simp
  from ground_truth_matched_once [OF h] show ?thesis
    using h by simp
qed

lemma sum_list_take_le: "sum_list (take n xs) \<le> sum_list (xs :: nat list)"
  by (metis append_take_drop_id le_add1 sum_list_append)

lemma all_detections_count:
  "all_detections self lps = Inr dets \<Longrightarrow>
     length (filter (\<lambda>d. snd d = 1) dets)
       \<le> sum_list (map (\<lambda>(lab, pred). case lab of None \<Rightarrow> 0 | Some im_lab \<Rightarrow> length im_lab) lps)"
proof (induction self lps arbitrary: dets rule: all_detections.induct)
  case (1 self)
  then show ?case by simp
next
  case (2 self im_lab rest)
  then show ?case by fastforce
next
  case (3 self im_lab im_pred rest)
  from 3(2) obtain ds ds' where ds: "match_image self im_lab im_pred = Inr ds"
    and ds': "all_detections self rest = Inr ds'" and dets: "dets = ds @ ds'"
    by (auto split: sum.splits)
  have "length (filter (\<lambda>d. snd d = 1) ds) \<le> (case im_lab of None \<Rightarrow> 0 | Some l \<Rightarrow> length l)"
    using ds by (rule match_image_count)
  moreover have "length (filter (\<lambda>d. snd d = 1) ds')
       \<le> sum_list (map (\<lambda>(lab, pred). case lab of None \<Rightarrow> 0 | Some im_lab \<Rightarrow> length im_lab) rest)"
    using 3(1) [OF ds ds'] .
  ultimately show ?case
    by (simp add: dets)
qed

lemma true_positives_le_truths:
  assumes "all_detections self (zip labels preds) = Inr dets"
  shows "length (filter (\<lambda>d. snd d = 1) dets) \<le> n_truths labels"
proof -
  let ?n = "\<lambda>x. case x of None \<Rightarrow> 0 | Some im_lab \<Rightarrow> length im_lab"
  have "map (\<lambda>(lab, pred). ?n lab) (zip labels preds) = map ?n (map fst (zip labels preds))"
    by (simp add: case_prod_unfold)
  also have "\<dots> = take (min (length labels) (length preds)) (map ?n labels)"
    by (simp only: map_fst_zip_take take_map)
  finally have "sum_list (map (\<lambda>(lab, pred). ?n lab) (zip labels preds)) \<le> n_truths labels"
    unfolding n_truths_def by (simp only: sum_list_take_le)
  with all_detections_count [OF assms] show ?thesis
    by simp
qed



section \<open>The average precision without ground truth\<close>

lemma length_cumsum_from: "length (cumsum_from s xs) = length xs"
  by (induction s xs rule: cumsum_from.induct) auto

lemma length_max_from_right: "length (max_from_right xs) = length xs"
  by (induction xs rule: max_from_right.induct) (auto simp: Let_def)

lemma np_sub_undefined:
  assumes "x = NaN \<or> x = PInf" "y = NaN \<or> y = PInf"
  shows "np_sub x y = NaN"
  using assms by auto

lemma np_sum_NaN: "xs \<noteq> [] \<Longrightarrow> \<forall>x \<in> set xs. x = NaN \<Longrightarrow> np_sum xs = NaN"
proof -
  have "foldl np_add NaN ys = NaN" for ys
    by (induction ys) auto
  then show "xs \<noteq> [] \<Longrightarrow> \<forall>x \<in> set xs. x = NaN \<Longrightarrow> np_sum xs = NaN"
    by (cases xs) (auto simp: np_sum_def)
qed

text \<open>
  Without any ground-truth box, every recall is \<^verbatim>\<open>nan\<close> or infinite, every difference of
  two recalls is \<^verbatim>\<open>nan\<close>, and with two detections or more so is the sum.
\<close>

lemma average_precision_no_truths:
  assumes "2 \<le> length detections"
  shows "average_precision detections 0 = NaN"
proof -
  define tps where "tps = cumsum_from 0 (map snd detections)"
  define recall where "recall = map (\<lambda>tp. np_div (real tp) (real (0 :: nat))) tps"
  define precision where "precision = max_from_right
      (map (\<lambda>(tp, n). real tp / real n) (zip tps [1..<length detections + 1]))"
  define terms where "terms = map (\<lambda>(p, r1, r0). np_scale p (np_sub r1 r0))
      (zip (tl precision) (zip (tl recall) (butlast recall)))"
  have ltps: "length tps = length detections"
    by (simp add: tps_def length_cumsum_from)
  have "length terms = length detections - 1"
    by (simp add: terms_def precision_def recall_def length_max_from_right ltps)
  with assms have ne: "terms \<noteq> []"
    by auto
  have bad: "\<forall>r \<in> set recall. r = NaN \<or> r = PInf"
    by (auto simp: recall_def np_div_def)
  have "\<forall>x \<in> set terms. x = NaN"
  proof
    fix x
    assume "x \<in> set terms"
    then obtain p r1 r0 where x: "x = np_scale p (np_sub r1 r0)"
      and "(p, r1, r0) \<in> set (zip (tl precision) (zip (tl recall) (butlast recall)))"
      by (auto simp: terms_def)
    then have "(r1, r0) \<in> set (zip (tl recall) (butlast recall))"
      by (meson set_zip_rightD)
    then have "r1 \<in> set (tl recall)" "r0 \<in> set (butlast recall)"
      by (meson set_zip_leftD set_zip_rightD)+
    then have "r1 \<in> set recall" "r0 \<in> set recall"
      by (metis list.sel(2) list.set_sel(2), metis in_set_butlastD)
    with bad have "np_sub r1 r0 = NaN"
      by (intro np_sub_undefined) auto
    then show "x = NaN"
      by (simp add: x)
  qed
  with ne have "np_sum terms = NaN"
    by (rule np_sum_NaN)
  then show ?thesis
    by (simp add: average_precision_def Let_def terms_def precision_def recall_def tps_def)
qed

lemma yolo_map_no_truths:
  assumes "all_detections self (zip labels preds) = Inr detections"
    and "n_truths labels = 0" and "2 \<le> length detections"
  shows "yolo_map self labels preds = Returns NaN"
proof -
  have "2 \<le> length (sort_key (\<lambda>d. - fst d) detections)"
    using assms(3) by simp
  then have "average_precision (sort_key (\<lambda>d. - fst d) detections) 0 = NaN"
    by (rule average_precision_no_truths)
  moreover have "detections \<noteq> []"
    using assms(3) by auto
  ultimately show ?thesis
    using assms(1,2) by (simp add: yolo_map_def)
qed

text \<open>
  C1: with no ground-truth box in any image and at least one detection, the mAP is 0.
  An image without label and with two predictions: \<^verbatim>\<open>n_truths\<close> is 0, the recalls are
  \<^verbatim>\<open>0 / 0\<close>, and the function returns \<^verbatim>\<open>nan\<close>. (With a single prediction the sum of
  the function has no term, and it returns 0.)
\<close>

theorem map_without_ground_truth:
  "yolo_map small_model [None] [Some [[0, 0, 10, 10, 9 / 10, 1], [20, 20, 30, 30, 8 / 10, 1]]]
     = Returns NaN
   \<and> yolo_map small_model [None] [Some [[0, 0, 10, 10, 9 / 10, 1]]] = Returns (Fin 0)"
  by code_simp

section \<open>The responsible box of a grid square\<close>

lemma expit_0: "expit 0 = 1 / 2"
  by (simp add: expit_def)

lemma expit_ln: "0 < a \<Longrightarrow> expit (ln a) = a / (a + 1)"
  by (simp add: expit_def exp_minus field_simps)








section \<open>The converted coordinates\<close>

lemma concat_chunks:
  "\<forall>x \<in> set xs. length x = k \<Longrightarrow> b < length xs \<Longrightarrow>
     take k (drop (k * b) (concat xs @ rest)) = xs ! b"
proof (induction xs arbitrary: b)
  case Nil
  then show ?case by simp
next
  case (Cons x xs)
  show ?case
  proof (cases b)
    case 0
    with Cons.prems show ?thesis by simp
  next
    case (Suc b')
    with Cons.prems have "take k (drop (k * b') (concat xs @ rest)) = xs ! b'"
      by (intro Cons.IH) auto
    moreover have "drop (k * b) (concat (x # xs) @ rest) = drop (k * b') (concat xs @ rest)"
      using Cons.prems(1) by (simp add: Suc)
    ultimately show ?thesis
      by (simp add: Suc)
  qed
qed

lemma length_convert_box: "length (convert_box self i b raw) = 5"
  by (simp add: convert_box_def xywh_to_xyxy_def Let_def)

lemma convert_pred_box:
  assumes "b < NUM_BOXES self"
  shows "take 5 (drop (5 * b) (convert_pred self i r)) =
     convert_box self i b (reshape_boxes (NUM_BOXES self) r ! b)"
proof -
  let ?xs = "map (\<lambda>b. convert_box self i b (reshape_boxes (NUM_BOXES self) r ! b)) [0..<NUM_BOXES self]"
  have "take 5 (drop (5 * b) (concat ?xs @ drop (NUM_BOXES self * 5) r)) = ?xs ! b"
    using assms by (intro concat_chunks) (auto simp: length_convert_box)
  then show ?thesis
    using assms by (simp add: convert_pred_def)
qed

lemma yolo_coord_convert_Returns:
  assumes "yolo_coord_convert self labels preds = Returns (labels', preds')"
  shows "preds' = map (\<lambda>(i, r). convert_pred self i r) (enumerate 0 preds)"
    and "labels' = map (\<lambda>(i, l). convert_label self i l) (enumerate 0 labels)"
    and "0 < grid_w self" and "0 < grid_h self"
    and "\<forall>r \<in> set preds. NUM_BOXES self * 5 \<le> length r"
  using assms by (auto simp: yolo_coord_convert_def list_ex_iff not_less split: if_splits)

text \<open>
  C6: for a grid of as many squares as \<^verbatim>\<open>preds\<close> has rows and one anchor for each box,
  box \<open>b\<close> of row \<open>i\<close> is converted from \<open>(tx, ty, tw, th, tc)\<close> to the corners of the box with
  centre \<open>((sigmoid tx + col) * image_w / grid_w, (sigmoid ty + row) * image_h / grid_h)\<close>,
  \<open>col = i mod grid_w\<close>, \<open>row = i div grid_w\<close>, and size
  \<open>(exp tw * anchor_w * image_w / grid_w, exp th * anchor_h * image_h / grid_h)\<close> for the
  anchor of the box, followed by \<open>sigmoid tc\<close>.
\<close>

theorem decoded_box:
  assumes "yolo_coord_convert self labels preds = Returns (labels', preds')"
    and "length preds = grid_w self * grid_h self"
    and "length (ANCHORS self) = NUM_BOXES self"
    and "i < length preds" and "b < NUM_BOXES self"
  shows
    "(let tx = preds ! i ! (5 * b); ty = preds ! i ! (5 * b + 1);
          tw = preds ! i ! (5 * b + 2); th = preds ! i ! (5 * b + 3);
          tc = preds ! i ! (5 * b + 4);
          col = i mod grid_w self; row = i div grid_w self;
          anchor_w = fst (ANCHORS self ! b); anchor_h = snd (ANCHORS self ! b);
          abs_x = (expit tx + real col) * real (image_width self) / real (grid_w self);
          abs_y = (expit ty + real row) * real (image_height self) / real (grid_h self);
          abs_w = exp tw * anchor_w * real (image_width self) / real (grid_w self);
          abs_h = exp th * anchor_h * real (image_height self) / real (grid_h self)
      in take 5 (drop (5 * b) (preds' ! i)) =
           [abs_x - abs_w / 2, abs_y - abs_h / 2, abs_x + abs_w / 2, abs_y + abs_h / 2, expit tc])"
proof -
  note cc = yolo_coord_convert_Returns [OF assms(1)]
  let ?r = "preds ! i"
  have row: "preds' ! i = convert_pred self i ?r"
    using assms(4) by (simp add: cc(1) nth_enumerate_eq)
  have len: "NUM_BOXES self * 5 \<le> length ?r"
    using cc(5) assms(4) by simp
  have raw: "reshape_boxes (NUM_BOXES self) ?r ! b = take 5 (drop (5 * b) ?r)"
    using assms(5) by (simp add: reshape_boxes_def)
  have "5 * b + 5 \<le> length ?r"
    using len assms(5) by simp
  then have vals: "take 5 (drop (5 * b) ?r) =
      [?r ! (5 * b), ?r ! (5 * b + 1), ?r ! (5 * b + 2), ?r ! (5 * b + 3), ?r ! (5 * b + 4)]"
    by (intro nth_equalityI) (auto simp: less_Suc_eq numeral_eq_Suc)
  have centre: "centre_for self i = i"
    using assms(2,4) by (auto simp: centre_for_def)
  have anchor: "anchor_for self b = ANCHORS self ! b"
    using assms(3,5) by (auto simp: anchor_for_def)
  have "take 5 (drop (5 * b) (preds' ! i)) = convert_box self i b (take 5 (drop (5 * b) ?r))"
    unfolding row raw [symmetric] using assms(5) by (rule convert_pred_box)
  also have "\<dots> = convert_box self i b
      [?r ! (5 * b), ?r ! (5 * b + 1), ?r ! (5 * b + 2), ?r ! (5 * b + 3), ?r ! (5 * b + 4)]"
    by (simp only: vals)
  finally show ?thesis
    by (simp add: convert_box_def xywh_to_xyxy_def Let_def centre anchor)
qed

text \<open>
  Witness of C6: a grid of 2 by 2 squares over 100 by 100 pixels, one anchor of one square,
  all raw numbers 0. The box of square 1 (column 1, row 0) has the centre (75, 25) and the
  size (50, 50).
\<close>

theorem decoded_box_witness:
  "yolo_coord_convert small_model
      [[1, 0, 1 / 2, 1 / 2, 1, 1], [1, 0, 1 / 2, 1 / 2, 1, 1],
       [1, 0, 1 / 2, 1 / 2, 1, 1], [1, 0, 1 / 2, 1 / 2, 1, 1]]
      [[0, 0, 0, 0, 0, 0], [0, 0, 0, 0, 0, 0], [0, 0, 0, 0, 0, 0], [0, 0, 0, 0, 0, 0]]
     = Returns
        ([[1, 0, 0, 0, 50, 50], [1, 0, 50, 0, 100, 50],
          [1, 0, 0, 50, 50, 100], [1, 0, 50, 50, 100, 100]],
         [[0, 0, 50, 50, 1 / 2, 0], [50, 0, 100, 50, 1 / 2, 0],
          [0, 50, 50, 100, 1 / 2, 0], [50, 50, 100, 100, 1 / 2, 0]])
   \<and> length [[0, 0, 0, 0, 0, 0], [0, 0, 0, 0, 0, 0], [0, 0, 0, 0, 0, 0], [0, 0, 0, 0, 0, 0 :: real]]
       = grid_w small_model * grid_h small_model
   \<and> length (ANCHORS small_model) = NUM_BOXES small_model
   \<and> take 5 (drop (5 * 0) ([[0, 0, 50, 50, 1 / 2, 0], [50, 0, 100, 50, 1 / 2, 0],
          [0, 50, 50, 100, 1 / 2, 0], [50, 50, 100, 100, 1 / 2, 0 :: real]] ! 1))
       = [(expit 0 + real (1 mod 2)) * 100 / 2 - exp 0 * 1 * 100 / 2 / 2,
          (expit 0 + real (1 div 2 :: nat)) * 100 / 2 - exp 0 * 1 * 100 / 2 / 2,
          (expit 0 + real (1 mod 2)) * 100 / 2 + exp 0 * 1 * 100 / 2 / 2,
          (expit 0 + real (1 div 2 :: nat)) * 100 / 2 + exp 0 * 1 * 100 / 2 / 2,
          expit 0]"
proof -
  let ?L = "[[1, 0, 1 / 2, 1 / 2, 1, 1], [1, 0, 1 / 2, 1 / 2, 1, 1],
       [1, 0, 1 / 2, 1 / 2, 1, 1], [1, 0, 1 / 2, 1 / 2, 1, 1 :: real]]"
  let ?P = "[[0, 0, 0, 0, 0, 0], [0, 0, 0, 0, 0, 0], [0, 0, 0, 0, 0, 0], [0, 0, 0, 0, 0, 0 :: real]]"
  have h: "yolo_coord_convert small_model ?L ?P
     = Returns
        ([[1, 0, 0, 0, 50, 50], [1, 0, 50, 0, 100, 50],
          [1, 0, 0, 50, 50, 100], [1, 0, 50, 50, 100, 100]],
         [[0, 0, 50, 50, 1 / 2, 0], [50, 0, 100, 50, 1 / 2, 0],
          [0, 50, 50, 100, 1 / 2, 0], [50, 50, 100, 100, 1 / 2, 0]])"
    by (simp add: yolo_coord_convert_def small_model_def convert_label_def convert_pred_def
        convert_box_def xywh_to_xyxy_def centre_for_def anchor_for_def reshape_boxes_def
        expit_def Let_def)
  have g: "length ?P = grid_w small_model * grid_h small_model"
    and a: "length (ANCHORS small_model) = NUM_BOXES small_model"
    and i: "1 < length ?P" and b: "0 < NUM_BOXES small_model"
    by (simp_all add: small_model_def)
  from decoded_box [OF h g a i b] show ?thesis
    using h g a by (simp add: small_model_def Let_def)
qed

section \<open>Patch stitching\<close>

lemma tiled_model_fields:
  "grid_w tiled_model = 1" "grid_h tiled_model = 1"
  "image_width tiled_model = 100" "image_height tiled_model = 50"
  "patch_width tiled_model = 50" "patch_height tiled_model = 50"
  by (simp_all add: tiled_model_def)

lemma upt_0_2: "[0..<2] = [0, 1]"
  by (simp add: numeral_2_eq_2)

lemma patch_xywh_offset:
  "patch_xywh self nph img_row i j k =
     (case patch_xywh self nph img_row 0 j k of
        (x, y, w, h) \<Rightarrow>
          (x + real ((i mod nph) * patch_width self), y + real ((i div nph) * patch_height self), w, h))"
  by (simp add: patch_xywh_def Let_def)

lemma append_each_Inr:
  "append_each f js acc = Inr r \<Longrightarrow>
     r = acc @ concat (map (\<lambda>j. case f j of Inl e \<Rightarrow> [] | Inr bs \<Rightarrow> bs) js)"
  by (induction f js acc rule: append_each.induct) (auto split: sum.splits)

text \<open>
  Patch stitching. The centre of a box of patch \<open>i\<close> is the centre that the same numbers
  give in patch 0, the patch-local centre, moved by
  \<open>((i mod nph) * patch_width, (i div nph) * patch_height)\<close>; the size is the same, and both
  corners are taken from the moved centre before \<^verbatim>\<open>int\<close> truncates them.
\<close>

lemma patch_stitching:
  assumes "patch_cell_boxes self nph img_row i j = Inr bs" and "bx \<in> set bs"
  shows "case patch_xywh self nph img_row 0 j (argmax (box_confs img_row j)) of
     (local_x, local_y, w, h) \<Rightarrow>
       (let image_x = local_x + real ((i mod nph) * patch_width self);
            image_y = local_y + real ((i div nph) * patch_height self)
        in bx = [real_of_int (py_int (image_x - w / 2)), real_of_int (py_int (image_y - h / 2)),
                 real_of_int (py_int (image_x + w / 2)), real_of_int (py_int (image_y + h / 2)),
                 box_confs img_row j ! argmax (box_confs img_row j)])"
proof -
  let ?k = "argmax (box_confs img_row j)"
  obtain x y w h where xy: "patch_xywh self nph img_row i j ?k = (x, y, w, h)"
    by (cases "patch_xywh self nph img_row i j ?k")
  obtain lx ly lw lh where l: "patch_xywh self nph img_row 0 j ?k = (lx, ly, lw, lh)"
    by (cases "patch_xywh self nph img_row 0 j ?k")
  from patch_xywh_offset [of self nph img_row i j ?k] xy l
  have off: "x = lx + real ((i mod nph) * patch_width self)"
    "y = ly + real ((i div nph) * patch_height self)" "w = lw" "h = lh"
    by simp_all
  from assms xy have "bx = [real_of_int (py_int (x - w / 2)), real_of_int (py_int (y - h / 2)),
      real_of_int (py_int (x + w / 2)), real_of_int (py_int (y + h / 2)), box_confs img_row j ! ?k]"
    by (auto simp: patch_cell_boxes_def Let_def split: if_splits)
  then show ?thesis
    by (simp add: l off Let_def)
qed

text \<open>
  The example of the specification: two patches of 50 by 50 pixels side by side; a box
  with the patch-local centre (40, 40) in patch 1 has the centre (90, 40) in the image.
\<close>

lemma patch_stitching_example:
  "patch_xywh tiled_model 2 ([ln 4, ln 4, 0, 0, ln 9] @ replicate 21 0) 0 0 0 = (40, 40, 20, 20)
   \<and> patch_xywh tiled_model 2 ([ln 4, ln 4, 0, 0, ln 9] @ replicate 21 0) 1 0 0 = (90, 40, 20, 20)"
  by (simp add: patch_xywh_def tiled_model_def expit_ln Let_def)

text \<open>
  For a call with one image, the suppression loop runs once, over the boxes of all the
  grid squares of all the patches of the image.
\<close>

lemma single_image_nms_over_pooled:
  assumes "interpreted_outputs_patching self [img_data] = Returns out"
  defines "nph \<equiv> image_width self div patch_width self"
  defines "num_patches \<equiv> (image_height self div patch_height self) * nph"
  defines "all_boxes \<equiv> concat (map (\<lambda>i. concat (map (\<lambda>j.
      case patch_cell_boxes self nph (img_data ! i) i j of Inl e \<Rightarrow> [] | Inr bs \<Rightarrow> bs)
        [0..<grid_w self * grid_h self])) [0..<num_patches])"
  shows "out = map ((!) all_boxes) (interp_nms_loop all_boxes (argsort (map conf all_boxes)) [])"
proof -
  let ?cell = "\<lambda>i. if length img_data \<le> i then Inl IndexError
            else append_each (patch_cell_boxes self nph (img_data ! i) i)
                   [0..<grid_w self * grid_h self] []"
  from assms(1) obtain bs where ib: "image_boxes self nph num_patches img_data [] = Inr bs"
    and out: "out = map ((!) bs) (interp_nms_loop bs (argsort (map conf bs)) [])"
    by (auto simp: interpreted_outputs_patching_def Let_def nph_def num_patches_def
        split: if_splits sum.splits option.splits)
  have all_ok: "\<exists>r. ?cell i = Inr r" if "i \<in> set is" "append_each ?cell is acc = Inr res"
    for i "is" acc res
    using that by (induction ?cell "is" acc rule: append_each.induct) (auto split: sum.splits)
  from ib have bs: "bs = concat (map (\<lambda>i. case ?cell i of Inl e \<Rightarrow> [] | Inr r \<Rightarrow> r) [0..<num_patches])"
    unfolding image_boxes_def using append_each_Inr by fastforce
  have "(case ?cell i of Inl e \<Rightarrow> [] | Inr r \<Rightarrow> r) =
      concat (map (\<lambda>j. case patch_cell_boxes self nph (img_data ! i) i j of Inl e \<Rightarrow> [] | Inr bs \<Rightarrow> bs)
        [0..<grid_w self * grid_h self])" if "i \<in> set [0..<num_patches]" for i
  proof -
    from all_ok [OF that ib [unfolded image_boxes_def]] obtain r where r: "?cell i = Inr r"
      by blast
    then have "append_each (patch_cell_boxes self nph (img_data ! i) i)
        [0..<grid_w self * grid_h self] [] = Inr r"
      by (auto split: if_splits)
    from append_each_Inr [OF this] r show ?thesis
      by simp
  qed
  then have "bs = all_boxes"
    unfolding bs all_boxes_def by (intro arg_cong [where f = concat] map_cong) auto
  with out show ?thesis
    by simp
qed

text \<open>
  C7: every detection of a patch is moved into the coordinates of the image, and the
  suppression then runs once over the pooled candidates of the whole image. The list
  \<^verbatim>\<open>total_pred_boxes\<close> is emptied before the loop over the images only. The first image
  below has a box of confidence 0.9 and the second image a box of confidence 0.8 at the
  same place: alone, the second image gives its box; after the first image, the
  suppression of the second image runs over the boxes of both images and gives the box
  of the first image.
\<close>

theorem boxes_of_earlier_images_stay:
  "interpreted_outputs_patching tiled_model
      [[[0, 0, 0, 0, ln 4] @ replicate 21 0, replicate 26 0]]
     = Returns [[15, 15, 35, 35, 8 / 10]]
   \<and> interpreted_outputs_patching tiled_model
      [[[0, 0, 0, 0, ln 9] @ replicate 21 0, replicate 26 0],
       [[0, 0, 0, 0, ln 4] @ replicate 21 0, replicate 26 0]]
     = Returns [[15, 15, 35, 35, 9 / 10]]"
proof -
  define r9 :: "real list" where "r9 = [0, 0, 0, 0, ln 9] @ replicate 21 0"
  define r4 :: "real list" where "r4 = [0, 0, 0, 0, ln 4] @ replicate 21 0"
  define r0 :: "real list" where "r0 = replicate 26 0"
  define b9 :: "real list" where "b9 = [15, 15, 35, 35, 9 / 10]"
  define b4 :: "real list" where "b4 = [15, 15, 35, 35, 8 / 10]"
  have c9: "patch_cell_boxes tiled_model 2 r9 0 0 = Inr [b9]"
    by (simp add: r9_def b9_def patch_cell_boxes_def patch_xywh_def box_confs_def tiled_model_def
        argmax_def expit_0 expit_ln py_int_def Let_def nth_append)
  have c4: "patch_cell_boxes tiled_model 2 r4 0 0 = Inr [b4]"
    by (simp add: r4_def b4_def patch_cell_boxes_def patch_xywh_def box_confs_def tiled_model_def
        argmax_def expit_0 expit_ln py_int_def Let_def nth_append)
  have c0: "patch_cell_boxes tiled_model 2 r0 (Suc 0) 0 = Inr []"
    by (simp add: r0_def patch_cell_boxes_def box_confs_def argmax_def expit_0 Let_def)
  have i9: "image_boxes tiled_model 2 2 [r9, r0] [] = Inr [b9]"
    by (simp add: image_boxes_def tiled_model_fields upt_0_2 c9 c0)
  have i4: "image_boxes tiled_model 2 2 [r4, r0] [] = Inr [b4]"
    by (simp add: image_boxes_def tiled_model_fields upt_0_2 c4 c0)
  have i94: "image_boxes tiled_model 2 2 [r4, r0] [b9] = Inr [b9, b4]"
    by (simp add: image_boxes_def tiled_model_fields upt_0_2 c4 c0)
  have n9: "interp_nms_loop [b9] (argsort [conf b9]) [] = [0]"
    unfolding b9_def by code_simp
  have n4: "interp_nms_loop [b4] (argsort [conf b4]) [] = [0]"
    unfolding b4_def by code_simp
  have n94: "interp_nms_loop [b9, b4] (argsort [conf b9, conf b4]) [] = [0]"
    unfolding b9_def b4_def by code_simp
  have "interpreted_outputs_patching tiled_model [[r4, r0]] = Returns [b4]"
    by (simp add: interpreted_outputs_patching_def tiled_model_fields i4 n4)
  moreover have "interpreted_outputs_patching tiled_model [[r9, r0], [r4, r0]] = Returns [b9]"
    by (simp add: interpreted_outputs_patching_def tiled_model_fields i9 i94 n9 n94)
  ultimately show ?thesis
    unfolding r9_def r4_def r0_def b9_def b4_def by simp
qed

end
